theory Spec2Isabelle
  imports Main "HOL-Library.Word" "HOL-Library.Multiset"
begin

section \<open>Values of the program\<close>

text \<open>
  The task identifiers are C++ \<^verbatim>\<open>int\<close>s: 32-bit two's complement values,
  read through \<open>sint\<close> wherever the source compares or prints them.
\<close>

type_synonym int32 = "32 word"

subsection \<open>Decimal rendering (\<^verbatim>\<open>std::to_string\<close>, \<^verbatim>\<open>operator<<\<close> on an int)\<close>

text \<open>
  \<^verbatim>\<open>std::to_string(int)\<close> and the stream insertion of an \<^verbatim>\<open>int\<close> both print
  the value in base ten, most significant digit first, with a leading minus sign for a
  negative value and no padding.
\<close>

definition digit_char :: "nat \<Rightarrow> char" where
  "digit_char d = ''0123456789'' ! d"

function digits :: "nat \<Rightarrow> string" where
  "digits n = (if n < 10 then [digit_char n] else digits (n div 10) @ [digit_char (n mod 10)])"
  by pat_completeness auto
termination
  by (relation "measure (\<lambda>n. n)") auto

declare digits.simps [simp del]

definition to_string :: "int32 \<Rightarrow> string" where
  "to_string v =
     (if sint v < 0 then CHR ''-'' # digits (nat (- sint v)) else digits (nat (sint v)))"

text \<open>Reading a digit string back, used only to state that \<open>digits\<close> is a decimal rendering.\<close>

definition digit_value :: "char \<Rightarrow> nat" where
  "digit_value c = of_char c - 48"

definition decimal_value :: "string \<Rightarrow> nat" where
  "decimal_value s = foldl (\<lambda>acc c. 10 * acc + digit_value c) 0 s"

subsection \<open>Exceptions and output\<close>

text \<open>
  The only exception the sources construct is \<^verbatim>\<open>std::invalid_argument\<close>, carrying
  its \<^verbatim>\<open>what()\<close> text. It derives from \<^verbatim>\<open>std::exception\<close>, which is what
  the handler in \<^verbatim>\<open>processTask\<close> catches.
\<close>

datatype exn = Invalid_argument string

fun what :: "exn \<Rightarrow> string" where
  "what (Invalid_argument s) = s"

fun is_std_exception :: "exn \<Rightarrow> bool" where
  "is_std_exception (Invalid_argument s) = True"

text \<open>
  What a call does besides returning: the lines it writes (each ended by
  \<^verbatim>\<open>std::endl\<close>) with the stream they go to, and the calls of
  \<^verbatim>\<open>MiddlewareService::sendMessage\<close> with their argument, in program order.
\<close>

datatype ostream = Cout | Cerr

datatype event = Write ostream string | SendMessage string

text \<open>A computation yields its events and either the exception that left it or its value.\<close>

type_synonym 'a comp = "event list \<times> (exn + 'a)"

definition lift :: "exn + 'a \<Rightarrow> 'a comp" where
  "lift r = ([], r)"

definition emit :: "event list \<Rightarrow> unit comp" where
  "emit es = (es, Inr ())"

definition bind_c :: "'a comp \<Rightarrow> ('a \<Rightarrow> 'b comp) \<Rightarrow> 'b comp" where
  "bind_c m f =
     (case m of
        (es, Inl e) \<Rightarrow> (es, Inl e)
      | (es, Inr x) \<Rightarrow> (case f x of (es', r) \<Rightarrow> (es @ es', r)))"

text \<open>
  \<^verbatim>\<open>try { body } catch (const std::exception& ex) { handler }\<close>: an exception of
  the body that the clause matches runs the handler; any other one leaves the block.
\<close>

definition try_catch :: "'a comp \<Rightarrow> (exn \<Rightarrow> bool) \<Rightarrow> (exn \<Rightarrow> 'a comp) \<Rightarrow> 'a comp" where
  "try_catch body matches handler =
     (case body of
        (es, Inr x) \<Rightarrow> (es, Inr x)
      | (es, Inl e) \<Rightarrow>
          (if matches e then (case handler e of (es', r) \<Rightarrow> (es @ es', r))
           else (es, Inl e)))"

definition events :: "'a comp \<Rightarrow> event list" where
  "events c = fst c"

definition outcome :: "'a comp \<Rightarrow> exn + 'a" where
  "outcome c = snd c"

fun notify_calls :: "event list \<Rightarrow> string list" where
  "notify_calls [] = []"
| "notify_calls (SendMessage m # es) = m # notify_calls es"
| "notify_calls (Write s l # es) = notify_calls es"

fun written :: "event list \<Rightarrow> (ostream \<times> string) list" where
  "written [] = []"
| "written (Write s l # es) = (s, l) # written es"
| "written (SendMessage m # es) = written es"

section \<open>DistributedSystemCodeSample.cpp\<close>

text \<open>\<^verbatim>\<open>#define LOGGER std::cerr\<close>\<close>

definition LOGGER :: ostream where
  "LOGGER = Cerr"

text \<open>\<^verbatim>\<open>DatabaseService::fetchMessageById\<close>\<close>

definition fetchMessageById :: "int32 \<Rightarrow> exn + string" where
  "fetchMessageById id' =
     (if 0 < sint id' \<and> sint id' \<le> 5 then Inr (''Message for ID '' @ to_string id')
      else Inl (Invalid_argument (''Invalid ID: '' @ to_string id')))"

text \<open>\<^verbatim>\<open>MiddlewareService::sendMessage\<close>\<close>

definition sendMessage :: "string \<Rightarrow> unit comp" where
  "sendMessage message =
     emit [SendMessage message, Write LOGGER (''Middleware: Sending -> '' @ message)]"

text \<open>\<^verbatim>\<open>DistributedTaskProcessor::processTask\<close>\<close>

definition processTask :: "int32 \<Rightarrow> unit comp" where
  "processTask taskId =
     try_catch
       (bind_c (lift (fetchMessageById taskId)) (\<lambda>message.
        bind_c (emit [Write LOGGER (''Task '' @ to_string taskId @ '': Fetched -> '' @ message)]) (\<lambda>_.
        sendMessage (''Processed Task '' @ to_string taskId @ '': '' @ message))))
       is_std_exception
       (\<lambda>ex. emit [Write LOGGER (''Task '' @ to_string taskId @ '': Error -> '' @ what ex)])"

section \<open>DistributedSystemWithSOLID.cpp\<close>

text \<open>
  The second file repeats the classes; it writes to \<^verbatim>\<open>std::cout\<close> except for the
  error line, which goes to \<^verbatim>\<open>std::cerr\<close>.
\<close>

definition fetchMessageById_SOLID :: "int32 \<Rightarrow> exn + string" where
  "fetchMessageById_SOLID id' =
     (if 0 < sint id' \<and> sint id' \<le> 5 then Inr (''Message for ID '' @ to_string id')
      else Inl (Invalid_argument (''Invalid ID: '' @ to_string id')))"

definition sendMessage_SOLID :: "string \<Rightarrow> unit comp" where
  "sendMessage_SOLID message =
     emit [SendMessage message, Write Cout (''Middleware: Sending -> '' @ message)]"

definition processTask_SOLID :: "int32 \<Rightarrow> unit comp" where
  "processTask_SOLID taskId =
     try_catch
       (bind_c (lift (fetchMessageById_SOLID taskId)) (\<lambda>message.
        bind_c (emit [Write Cout (''Task '' @ to_string taskId @ '': Fetched -> '' @ message)]) (\<lambda>_.
        sendMessage_SOLID (''Processed Task '' @ to_string taskId @ '': '' @ message))))
       is_std_exception
       (\<lambda>ex. emit [Write Cerr (''Task '' @ to_string taskId @ '': Error -> '' @ what ex)])"

section \<open>MessageQueue\<close>

text \<open>
  The class holds \<^verbatim>\<open>std::queue<int> tasks\<close>, a mutex and a condition variable.
  Both methods run with the mutex held from their first statement to their return, so
  each completed call is one atomic step on the sequence of pending ids (front first).
\<close>

record MessageQueue =
  tasks :: "int32 list"

definition empty_queue :: MessageQueue where
  "empty_queue = \<lparr>tasks = []\<rparr>"

text \<open>\<^verbatim>\<open>MessageQueue::push\<close>: \<^verbatim>\<open>tasks.push(taskId)\<close> appends at the back.\<close>

definition push :: "int32 \<Rightarrow> MessageQueue \<Rightarrow> MessageQueue" where
  "push taskId q = q\<lparr>tasks := tasks q @ [taskId]\<rparr>"

text \<open>
  \<^verbatim>\<open>MessageQueue::pop\<close>: \<^verbatim>\<open>cv.wait(lock, pred)\<close> lets the call go on only in a
  state where \<^verbatim>\<open>!tasks.empty()\<close>; the call then takes \<^verbatim>\<open>tasks.front()\<close> and
  removes it. \<open>None\<close> says that the call cannot return in this state: it stays blocked.
\<close>

definition pop :: "MessageQueue \<Rightarrow> (int32 \<times> MessageQueue) option" where
  "pop q =
     (if tasks q \<noteq> [] then Some (hd (tasks q), q\<lparr>tasks := tl (tasks q)\<rparr>) else None)"

text \<open>One caller pushing a sequence of ids, and one caller popping \<open>n\<close> times in a row.\<close>

fun push_all :: "int32 list \<Rightarrow> MessageQueue \<Rightarrow> MessageQueue" where
  "push_all [] q = q"
| "push_all (t # ts) q = push_all ts (push t q)"

fun pop_n :: "nat \<Rightarrow> MessageQueue \<Rightarrow> (int32 list \<times> MessageQueue) option" where
  "pop_n 0 q = Some ([], q)"
| "pop_n (Suc n) q =
     (case pop q of
        None \<Rightarrow> None
      | Some (t, q') \<Rightarrow>
          (case pop_n n q' of None \<Rightarrow> None | Some (ts, q'') \<Rightarrow> Some (t # ts, q'')))"

text \<open>
  A history is the list of the calls that completed on one queue, by any threads, in the
  order in which they held the mutex. A \<open>Pop\<close> completes only in a state where \<open>pop\<close>
  returns; a list that asks for more is not a history (\<open>None\<close>).
\<close>

datatype call = Push int32 | Pop

fun perform :: "call \<Rightarrow> MessageQueue \<Rightarrow> MessageQueue option" where
  "perform (Push t) q = Some (push t q)"
| "perform Pop q = (case pop q of None \<Rightarrow> None | Some (t, q') \<Rightarrow> Some q')"

fun history :: "call list \<Rightarrow> MessageQueue \<Rightarrow> MessageQueue option" where
  "history [] q = Some q"
| "history (c # cs) q = (case perform c q of None \<Rightarrow> None | Some q' \<Rightarrow> history cs q')"

fun pushes :: "call list \<Rightarrow> nat" where
  "pushes [] = 0"
| "pushes (Push t # cs) = Suc (pushes cs)"
| "pushes (Pop # cs) = pushes cs"

fun pops :: "call list \<Rightarrow> nat" where
  "pops [] = 0"
| "pops (Push t # cs) = pops cs"
| "pops (Pop # cs) = Suc (pops cs)"

section \<open>The driver: \<^verbatim>\<open>main\<close> of DistributedSystemCodeSample.cpp\<close>

text \<open>
  \<^verbatim>\<open>main\<close> starts the worker threads, pushes the ids and joins the workers. The
  threads interleave; every step below is one thread's next action, atomic because it is
  either a queue call (under the mutex) or local to the thread: \<open>processTask\<close> reads
  and writes no shared data (the order of the lines written by different workers is not
  part of the state). The number of workers and the ids pushed are parameters; the source
  has 3 workers and pushes 1, 2, 3, 4, 5.
\<close>

definition main_workers :: nat where
  "main_workers = 3"

definition main_seeds :: "int32 list" where
  "main_seeds = [1, 2, 3, 4, 5]"

text \<open>
  Where a worker stands in \<^verbatim>\<open>while (true) { taskId = pop(); processTask(taskId); }\<close>:
  at the call of \<open>pop\<close>, at the call of \<open>processTask\<close> with the id it popped, or past
  the loop, where the thread function returns.
\<close>

datatype worker_pc = AtPop | AtProcess int32 | Finished

text \<open>
  Where \<^verbatim>\<open>main\<close> stands once the workers are started: in the loop of pushes (the
  count of pushes done), in the loop of joins (the index of the worker it waits for), or
  after \<^verbatim>\<open>return 0\<close>. The second file has the same places; its last loop calls
  \<^verbatim>\<open>detach\<close> where this one calls \<^verbatim>\<open>join\<close>, and the index is then the worker
  that loop has reached.
\<close>

datatype main_pc = Seeding nat | Joining nat | Returned

datatype thread = Main | Worker nat

text \<open>
  \<open>processed\<close> lists the ids whose \<open>processTask\<close> call has returned, in the order of
  return. \<open>halted\<close> holds once the process is over: \<^verbatim>\<open>main\<close> returned, or an
  exception left a thread function (\<^verbatim>\<open>std::terminate\<close>).
\<close>

record system =
  taskQueue :: MessageQueue
  workers :: "worker_pc list"
  main_at :: main_pc
  processed :: "int32 list"
  halted :: bool

text \<open>The test of \<^verbatim>\<open>while (true)\<close> and the place it leads to.\<close>

definition loop_head :: worker_pc where
  "loop_head = (if True then AtPop else Finished)"

definition init :: "nat \<Rightarrow> system" where
  "init n =
     \<lparr>taskQueue = empty_queue, workers = replicate n loop_head, main_at = Seeding 0,
      processed = [], halted = False\<rparr>"

text \<open>
  A worker's next action, for the handler \<open>proc\<close> behind the \<^verbatim>\<open>TaskProcessor\<close>
  interface. A worker at a \<open>pop\<close> that cannot return stays where it is.
\<close>

definition worker_step :: "(int32 \<Rightarrow> unit comp) \<Rightarrow> nat \<Rightarrow> system \<Rightarrow> system" where
  "worker_step proc w s =
     (if w < length (workers s) then
        (case workers s ! w of
           AtPop \<Rightarrow>
             (case pop (taskQueue s) of
                None \<Rightarrow> s
              | Some (t, q') \<Rightarrow> s\<lparr>taskQueue := q', workers := (workers s)[w := AtProcess t]\<rparr>)
         | AtProcess t \<Rightarrow>
             (case outcome (proc t) of
                Inr u \<Rightarrow> s\<lparr>workers := (workers s)[w := loop_head], processed := processed s @ [t]\<rparr>
              | Inl e \<Rightarrow> s\<lparr>halted := True\<rparr>)
         | Finished \<Rightarrow> s)
      else s)"

text \<open>
  The next statement of \<^verbatim>\<open>main\<close> inside its \<^verbatim>\<open>try\<close> block, with its result:
  the exception it throws, or the state after it. It pushes the next id, or goes on to the
  joins; \<^verbatim>\<open>worker.join()\<close> returns only once that worker's thread function has
  returned. None of these statements throws.
\<close>

definition main_body :: "int32 list \<Rightarrow> system \<Rightarrow> exn + system" where
  "main_body seeds s =
     (case main_at s of
        Seeding i \<Rightarrow>
          (if i < length seeds
           then Inr (s\<lparr>taskQueue := push (seeds ! i) (taskQueue s), main_at := Seeding (Suc i)\<rparr>)
           else Inr (s\<lparr>main_at := Joining 0\<rparr>))
      | Joining k \<Rightarrow>
          (if k < length (workers s)
           then (if workers s ! k = Finished then Inr (s\<lparr>main_at := Joining (Suc k)\<rparr>) else Inr s)
           else Inr (s\<lparr>main_at := Returned, halted := True\<rparr>))
      | Returned \<Rightarrow> Inr s)"

text \<open>
  The next action of \<^verbatim>\<open>main\<close>:
  \<^verbatim>\<open>try { ... } catch (const std::exception& ex) { LOGGER << ...; } return 0;\<close>
  An exception that the clause matches would be logged and \<^verbatim>\<open>main\<close> would return;
  any other one would end the process.
\<close>

definition main_step :: "int32 list \<Rightarrow> system \<Rightarrow> system" where
  "main_step seeds s =
     (case main_body seeds s of
        Inr s' \<Rightarrow> s'
      | Inl ex \<Rightarrow>
          (if is_std_exception ex then s\<lparr>main_at := Returned, halted := True\<rparr>
           else s\<lparr>halted := True\<rparr>))"

definition step :: "int32 list \<Rightarrow> thread \<Rightarrow> system \<Rightarrow> system" where
  "step seeds t s =
     (if halted s then s
      else (case t of Main \<Rightarrow> main_step seeds s | Worker w \<Rightarrow> worker_step processTask w s))"

text \<open>A schedule names the thread that acts next, step after step.\<close>

fun run :: "int32 list \<Rightarrow> thread list \<Rightarrow> system \<Rightarrow> system" where
  "run seeds [] s = s"
| "run seeds (t # ts) s = run seeds ts (step seeds t s)"

text \<open>
  The seeded ids are drained: \<^verbatim>\<open>main\<close> has left the loop of pushes, the queue is
  empty and no worker holds an id.
\<close>

definition drained :: "system \<Rightarrow> bool" where
  "drained s =
     ((case main_at s of Seeding i \<Rightarrow> False | Joining k \<Rightarrow> True | Returned \<Rightarrow> True)
      \<and> tasks (taskQueue s) = [] \<and> list_all (\<lambda>w. w = AtPop) (workers s))"

subsection \<open>\<^verbatim>\<open>main\<close> of DistributedSystemWithSOLID.cpp\<close>

text \<open>
  The second file's \<^verbatim>\<open>main\<close> has the same statements in the same order, with no
  \<^verbatim>\<open>try\<close> block around them, up to its last loop: \<^verbatim>\<open>worker.detach()\<close> returns at
  once, whatever the worker is doing. After the loop \<^verbatim>\<open>main\<close> returns, which ends the
  process and the detached threads with it. The worker loop is the same text and calls
  this file's \<open>processTask\<close>.
\<close>

definition main_step_SOLID :: "int32 list \<Rightarrow> system \<Rightarrow> system" where
  "main_step_SOLID seeds s =
     (case main_at s of
        Seeding i \<Rightarrow>
          (if i < length seeds
           then s\<lparr>taskQueue := push (seeds ! i) (taskQueue s), main_at := Seeding (Suc i)\<rparr>
           else s\<lparr>main_at := Joining 0\<rparr>)
      | Joining k \<Rightarrow>
          (if k < length (workers s)
           then s\<lparr>main_at := Joining (Suc k)\<rparr>
           else s\<lparr>main_at := Returned, halted := True\<rparr>)
      | Returned \<Rightarrow> s)"

definition step_SOLID :: "int32 list \<Rightarrow> thread \<Rightarrow> system \<Rightarrow> system" where
  "step_SOLID seeds t s =
     (if halted s then s
      else (case t of
              Main \<Rightarrow> main_step_SOLID seeds s
            | Worker w \<Rightarrow> worker_step processTask_SOLID w s))"

fun run_SOLID :: "int32 list \<Rightarrow> thread list \<Rightarrow> system \<Rightarrow> system" where
  "run_SOLID seeds [] s = s"
| "run_SOLID seeds (t # ts) s = run_SOLID seeds ts (step_SOLID seeds t s)"

text \<open>
  The one place where the two drivers part: \<^verbatim>\<open>main\<close> acts, in a live process, at
  the last loop with a worker that has not finished. The first file waits there.
\<close>

definition join_waits :: "thread \<Rightarrow> system \<Rightarrow> bool" where
  "join_waits t s =
     (t = Main \<and> \<not> halted s
      \<and> (case main_at s of
            Seeding i \<Rightarrow> False
          | Joining k \<Rightarrow> k < length (workers s) \<and> workers s ! k \<noteq> Finished
          | Returned \<Rightarrow> False))"

text \<open>Ten actions of \<^verbatim>\<open>main\<close> in a row, while no worker acts.\<close>

definition main_only :: "thread list" where
  "main_only = [Main, Main, Main, Main, Main, Main, Main, Main, Main, Main]"


section \<open>MessageQueue with its condition variable\<close>









section \<open>Invariants of the first driver\<close>

text \<open>
  For the proofs: the id a worker holds between its pop and the return of its
  \<open>processTask\<close>, the ids held by all workers, and the ids \<^verbatim>\<open>main\<close> has pushed.
\<close>

fun held :: "worker_pc \<Rightarrow> int32 multiset" where
  "held AtPop = {#}"
| "held (AtProcess t) = {#t#}"
| "held Finished = {#}"

fun in_flight :: "worker_pc list \<Rightarrow> int32 multiset" where
  "in_flight [] = {#}"
| "in_flight (w # ws) = held w + in_flight ws"

fun pushed :: "main_pc \<Rightarrow> int32 list \<Rightarrow> int32 list" where
  "pushed (Seeding i) seeds = take i seeds"
| "pushed (Joining k) seeds = seeds"
| "pushed Returned seeds = seeds"

text \<open>Every id pushed so far is pending, held by a worker, or processed.\<close>

definition conserved :: "int32 list \<Rightarrow> system \<Rightarrow> bool" where
  "conserved seeds s =
     (mset (tasks (taskQueue s)) + in_flight (workers s) + mset (processed s)
        = mset (pushed (main_at s) seeds)
      \<and> (case main_at s of Seeding i \<Rightarrow> i \<le> length seeds | Joining k \<Rightarrow> True | Returned \<Rightarrow> True))"

text \<open>
  One schedule of the source's configuration that drains the five ids: \<^verbatim>\<open>main\<close>
  pushes them and reaches the joins, then the three workers pop and process in turn.
\<close>

definition drain_schedule :: "thread list" where
  "drain_schedule =
     [Main, Main, Main, Main, Main, Main,
      Worker 0, Worker (Suc 0), Worker (Suc (Suc 0)), Worker (Suc 0), Worker 0,
      Worker (Suc (Suc 0)), Worker 0, Worker (Suc 0), Worker 0, Worker (Suc 0)]"

text \<open>
  No thread has left its loop: the process is alive, each of the \<open>n\<close> workers is inside
  its loop, and \<^verbatim>\<open>main\<close> is pushing or waits for the first worker.
\<close>

definition running :: "nat \<Rightarrow> system \<Rightarrow> bool" where
  "running n s =
     (\<not> halted s \<and> length (workers s) = n \<and> Finished \<notin> set (workers s)
      \<and> (case main_at s of Seeding i \<Rightarrow> True | Joining k \<Rightarrow> k = 0 | Returned \<Rightarrow> False))"

section \<open>The lookup and the handler\<close>

lemma digits_small: "n < 10 \<Longrightarrow> digits n = [digit_char n]"
  by (simp add: digits.simps)

text \<open>\<open>digits\<close> is a decimal rendering: reading its digits back gives the number.\<close>

lemma digit_value_digit_char: "d < 10 \<Longrightarrow> digit_value (digit_char d) = d"
proof -
  assume "d < 10"
  then have "d \<in> {0, 1, 2, 3, 4, 5, 6, 7, 8, 9}" by auto
  then show ?thesis by (auto simp: digit_value_def digit_char_def)
qed

lemma decimal_value_snoc: "decimal_value (s @ [c]) = 10 * decimal_value s + digit_value c"
  by (simp add: decimal_value_def)

lemma decimal_value_digits: "decimal_value (digits n) = n"
proof (induction n rule: digits.induct)
  case (1 n)
  show ?case
  proof (cases "n < 10")
    case True
    then show ?thesis
      by (simp add: digits.simps decimal_value_def digit_value_digit_char)
  next
    case False
    then have "decimal_value (digits n) =
        10 * decimal_value (digits (n div 10)) + digit_value (digit_char (n mod 10))"
      by (subst digits.simps) (simp add: decimal_value_snoc)
    with False 1 show ?thesis by (simp add: digit_value_digit_char)
  qed
qed

lemma to_string_digit:
  "0 \<le> sint v \<Longrightarrow> sint v < 10 \<Longrightarrow> to_string v = [digit_char (nat (sint v))]"
  by (simp add: to_string_def digits_small)

lemma fetch_SOLID_eq: "fetchMessageById_SOLID v = fetchMessageById v"
  by (simp add: fetchMessageById_SOLID_def fetchMessageById_def)

lemma processTask_Inr:
  "fetchMessageById v = Inr m \<Longrightarrow>
   processTask v =
     ([Write LOGGER (''Task '' @ to_string v @ '': Fetched -> '' @ m),
       SendMessage (''Processed Task '' @ to_string v @ '': '' @ m),
       Write LOGGER (''Middleware: Sending -> '' @ ''Processed Task '' @ to_string v @ '': '' @ m)],
      Inr ())"
  by (simp add: processTask_def try_catch_def bind_c_def lift_def emit_def sendMessage_def)

lemma processTask_Inl:
  "fetchMessageById v = Inl e \<Longrightarrow>
   processTask v = ([Write LOGGER (''Task '' @ to_string v @ '': Error -> '' @ what e)], Inr ())"
  by (cases e) (simp add: processTask_def try_catch_def bind_c_def lift_def emit_def)

lemma processTask_SOLID_Inr:
  "fetchMessageById_SOLID v = Inr m \<Longrightarrow>
   processTask_SOLID v =
     ([Write Cout (''Task '' @ to_string v @ '': Fetched -> '' @ m),
       SendMessage (''Processed Task '' @ to_string v @ '': '' @ m),
       Write Cout (''Middleware: Sending -> '' @ ''Processed Task '' @ to_string v @ '': '' @ m)],
      Inr ())"
  by (simp add: processTask_SOLID_def try_catch_def bind_c_def lift_def emit_def
      sendMessage_SOLID_def)

lemma processTask_SOLID_Inl:
  "fetchMessageById_SOLID v = Inl e \<Longrightarrow>
   processTask_SOLID v =
     ([Write Cerr (''Task '' @ to_string v @ '': Error -> '' @ what e)], Inr ())"
  by (cases e) (simp add: processTask_SOLID_def try_catch_def bind_c_def lift_def emit_def)

lemma processTask_returns: "snd (processTask v) = Inr ()"
  by (cases "fetchMessageById v") (simp_all add: processTask_Inl processTask_Inr)

lemma processTask_SOLID_returns: "snd (processTask_SOLID v) = Inr ()"
  by (cases "fetchMessageById_SOLID v") (simp_all add: processTask_SOLID_Inl processTask_SOLID_Inr)

lemmas render_simps = to_string_def digits.simps digit_char_def

text \<open>
  Claim C1. For every id whose value lies in the inclusive range from 1 to 5, the lookup
  \<^verbatim>\<open>DatabaseService::fetchMessageById\<close> of either file succeeds and returns the
  text "Message for ID " followed by the decimal rendering of the id, which is the single
  digit of that value.
\<close>

theorem fetchMessageById_in_range:
  assumes "1 \<le> sint v" and "sint v \<le> 5"
  shows "fetchMessageById v = Inr (''Message for ID '' @ to_string v)
       \<and> fetchMessageById_SOLID v = Inr (''Message for ID '' @ to_string v)
       \<and> to_string v = [''0123456789'' ! nat (sint v)]"
  using assms by (simp add: fetchMessageById_def fetch_SOLID_eq to_string_digit digit_char_def)

theorem fetchMessageById_in_range_witness:
  "1 \<le> sint (3 :: int32) \<and> sint (3 :: int32) \<le> 5
   \<and> fetchMessageById 3 = Inr ''Message for ID 3''
   \<and> fetchMessageById_SOLID 3 = Inr ''Message for ID 3''"
  using fetchMessageById_in_range [of 3] by (simp add: render_simps)

text \<open>
  Claim C2. For every id below 1 or above 5 the lookup fails with
  \<^verbatim>\<open>std::invalid_argument\<close>, and \<^verbatim>\<open>processTask\<close> for that id writes exactly one
  line, the error line, and makes no call of \<^verbatim>\<open>sendMessage\<close>.
\<close>

theorem fetchMessageById_out_of_range:
  assumes "sint v < 1 \<or> 5 < sint v"
  shows "fetchMessageById v = Inl (Invalid_argument (''Invalid ID: '' @ to_string v))
       \<and> fetchMessageById_SOLID v = Inl (Invalid_argument (''Invalid ID: '' @ to_string v))
       \<and> events (processTask v) =
           [Write Cerr (''Task '' @ to_string v @ '': Error -> Invalid ID: '' @ to_string v)]
       \<and> events (processTask_SOLID v) =
           [Write Cerr (''Task '' @ to_string v @ '': Error -> Invalid ID: '' @ to_string v)]
       \<and> notify_calls (events (processTask v)) = []
       \<and> notify_calls (events (processTask_SOLID v)) = []"
proof -
  from assms have f: "fetchMessageById v = Inl (Invalid_argument (''Invalid ID: '' @ to_string v))"
    by (auto simp: fetchMessageById_def)
  then have g: "fetchMessageById_SOLID v = Inl (Invalid_argument (''Invalid ID: '' @ to_string v))"
    by (simp add: fetch_SOLID_eq)
  show ?thesis
    using f g by (simp add: processTask_Inl [OF f] processTask_SOLID_Inl [OF g] events_def LOGGER_def)
qed

theorem fetchMessageById_out_of_range_witness:
  "(sint (6 :: int32) < 1 \<or> 5 < sint (6 :: int32))
   \<and> fetchMessageById 6 = Inl (Invalid_argument ''Invalid ID: 6'')
   \<and> events (processTask 6) = [Write Cerr ''Task 6: Error -> Invalid ID: 6'']
   \<and> events (processTask_SOLID 6) = [Write Cerr ''Task 6: Error -> Invalid ID: 6'']
   \<and> notify_calls (events (processTask 6)) = []
   \<and> (sint (- 3 :: int32) < 1 \<or> 5 < sint (- 3 :: int32))
   \<and> fetchMessageById (- 3) = Inl (Invalid_argument ''Invalid ID: -3'')
   \<and> events (processTask (- 3)) = [Write Cerr ''Task -3: Error -> Invalid ID: -3'']"
  using fetchMessageById_out_of_range [of 6] fetchMessageById_out_of_range [of "- 3"]
  by (simp add: render_simps)

text \<open>
  Claim C4. Whenever the lookup succeeds with a message, \<^verbatim>\<open>processTask\<close> first writes
  "Task id: Fetched -> message" and then calls \<^verbatim>\<open>sendMessage\<close> with
  "Processed Task id: message" (which writes its own line); for the ids 1 to 5 the payload
  of that one call is "Processed Task id: Message for ID id".
\<close>

theorem processTask_success_path:
  assumes "fetchMessageById v = Inr message"
  shows "events (processTask v) =
           [Write Cerr (''Task '' @ to_string v @ '': Fetched -> '' @ message),
            SendMessage (''Processed Task '' @ to_string v @ '': '' @ message),
            Write Cerr (''Middleware: Sending -> Processed Task '' @ to_string v @ '': '' @ message)]
       \<and> events (processTask_SOLID v) =
           [Write Cout (''Task '' @ to_string v @ '': Fetched -> '' @ message),
            SendMessage (''Processed Task '' @ to_string v @ '': '' @ message),
            Write Cout (''Middleware: Sending -> Processed Task '' @ to_string v @ '': '' @ message)]
       \<and> map (\<lambda>i. notify_calls (events (processTask i))) [1, 2, 3, 4, 5] =
           [[''Processed Task 1: Message for ID 1''], [''Processed Task 2: Message for ID 2''],
            [''Processed Task 3: Message for ID 3''], [''Processed Task 4: Message for ID 4''],
            [''Processed Task 5: Message for ID 5'']]
       \<and> map (\<lambda>i. notify_calls (events (processTask_SOLID i))) [1, 2, 3, 4, 5] =
           [[''Processed Task 1: Message for ID 1''], [''Processed Task 2: Message for ID 2''],
            [''Processed Task 3: Message for ID 3''], [''Processed Task 4: Message for ID 4''],
            [''Processed Task 5: Message for ID 5'']]"
proof -
  from assms have g: "fetchMessageById_SOLID v = Inr message"
    by (simp add: fetch_SOLID_eq)
  have a: "events (processTask v) =
           [Write Cerr (''Task '' @ to_string v @ '': Fetched -> '' @ message),
            SendMessage (''Processed Task '' @ to_string v @ '': '' @ message),
            Write Cerr (''Middleware: Sending -> Processed Task '' @ to_string v @ '': '' @ message)]"
    by (simp add: processTask_Inr [OF assms] events_def LOGGER_def)
  have b: "events (processTask_SOLID v) =
           [Write Cout (''Task '' @ to_string v @ '': Fetched -> '' @ message),
            SendMessage (''Processed Task '' @ to_string v @ '': '' @ message),
            Write Cout (''Middleware: Sending -> Processed Task '' @ to_string v @ '': '' @ message)]"
    by (simp add: processTask_SOLID_Inr [OF g] events_def)
  have f: "fetchMessageById 1 = Inr ''Message for ID 1''" "fetchMessageById 2 = Inr ''Message for ID 2''"
    "fetchMessageById 3 = Inr ''Message for ID 3''" "fetchMessageById 4 = Inr ''Message for ID 4''"
    "fetchMessageById 5 = Inr ''Message for ID 5''"
    by (simp_all add: fetchMessageById_def render_simps)
  have c: "map (\<lambda>i. notify_calls (events (processTask i))) [1, 2, 3, 4, 5] =
           [[''Processed Task 1: Message for ID 1''], [''Processed Task 2: Message for ID 2''],
            [''Processed Task 3: Message for ID 3''], [''Processed Task 4: Message for ID 4''],
            [''Processed Task 5: Message for ID 5'']]"
    by (simp add: f [THEN processTask_Inr] events_def render_simps)
  have d: "map (\<lambda>i. notify_calls (events (processTask_SOLID i))) [1, 2, 3, 4, 5] =
           [[''Processed Task 1: Message for ID 1''], [''Processed Task 2: Message for ID 2''],
            [''Processed Task 3: Message for ID 3''], [''Processed Task 4: Message for ID 4''],
            [''Processed Task 5: Message for ID 5'']]"
    by (simp add: f [folded fetch_SOLID_eq, THEN processTask_SOLID_Inr] events_def render_simps)
  from a b c d show ?thesis by blast
qed

theorem processTask_success_path_witness:
  "fetchMessageById 3 = Inr ''Message for ID 3''
   \<and> events (processTask 3) =
       [Write Cerr ''Task 3: Fetched -> Message for ID 3'',
        SendMessage ''Processed Task 3: Message for ID 3'',
        Write Cerr ''Middleware: Sending -> Processed Task 3: Message for ID 3'']
   \<and> events (processTask_SOLID 3) =
       [Write Cout ''Task 3: Fetched -> Message for ID 3'',
        SendMessage ''Processed Task 3: Message for ID 3'',
        Write Cout ''Middleware: Sending -> Processed Task 3: Message for ID 3'']"
proof -
  have f: "fetchMessageById 3 = Inr ''Message for ID 3''"
    by (simp add: fetchMessageById_def render_simps)
  show ?thesis
    using f processTask_success_path [OF f] by (simp add: render_simps)
qed

text \<open>
  Claim C7. For every id, \<^verbatim>\<open>processTask\<close> returns normally: no exception leaves
  it, in either file. The failure of the lookup is caught by the handler inside.
\<close>

theorem processTask_absorbs_errors: "outcome (processTask v) = Inr () \<and> outcome (processTask_SOLID v) = Inr ()"
  by (simp add: outcome_def processTask_returns processTask_SOLID_returns)

lemma written_lines_eq:
  "map snd (written (events (processTask_SOLID v))) = map snd (written (events (processTask v)))"
  by (cases "fetchMessageById v")
    (simp_all add: events_def processTask_Inl processTask_Inr
      processTask_SOLID_Inl [unfolded fetch_SOLID_eq] processTask_SOLID_Inr [unfolded fetch_SOLID_eq])

lemma notify_calls_eq:
  "notify_calls (events (processTask_SOLID v)) = notify_calls (events (processTask v))"
  by (cases "fetchMessageById v")
    (simp_all add: events_def processTask_Inl processTask_Inr
      processTask_SOLID_Inl [unfolded fetch_SOLID_eq] processTask_SOLID_Inr [unfolded fetch_SOLID_eq])

section \<open>The queue\<close>

lemma tasks_push_all: "tasks (push_all ts q) = tasks q @ ts"
  by (induction ts arbitrary: q) (simp_all add: push_def)

lemma push_all_more: "MessageQueue.more (push_all ts q) = MessageQueue.more q"
  by (induction ts arbitrary: q) (simp_all add: push_def)

lemma pop_Cons: "tasks q = t # ts \<Longrightarrow> pop q = Some (t, q\<lparr>tasks := ts\<rparr>)"
  by (simp add: pop_def)

lemma pop_n_all: "tasks q = ts \<Longrightarrow> pop_n (length ts) q = Some (ts, q\<lparr>tasks := []\<rparr>)"
proof (induction ts arbitrary: q)
  case Nil
  then show ?case by simp
next
  case (Cons t ts)
  have "pop_n (length ts) (q\<lparr>tasks := ts\<rparr>) = Some (ts, q\<lparr>tasks := ts, tasks := []\<rparr>)"
    by (rule Cons.IH) simp
  with Cons.prems show ?case by (simp add: pop_Cons)
qed

lemma push_all_empty: "push_all ts empty_queue = \<lparr>tasks = ts\<rparr>"
  by (rule MessageQueue.equality) (simp_all add: tasks_push_all push_all_more empty_queue_def)

text \<open>
  Claim C3, as stated for every queue state, fails on a queue that already holds a pending
  id: after pushing 1, 2, 3 onto the queue holding 9, three pops return 9, 1, 2.
\<close>

theorem fifo_counterexample:
  "map_option fst (pop_n 3 (push_all [1, 2, 3] \<lparr>tasks = [9]\<rparr>)) = Some [9, 1, 2]
   \<and> map_option fst (pop_n 3 (push_all [1, 2, 3] \<lparr>tasks = [9]\<rparr>)) \<noteq> Some [1, 2, 3]"
  by (simp add: push_def pop_def numeral_3_eq_3)

text \<open>
  Claim C3, amended. On the empty queue, pushing 1, 2, 3 and popping three times returns
  1, 2, 3 and leaves the queue empty. On any queue, popping everything after a sequence of
  pushes returns the ids that were pending, in their order, and then the pushed ids in the
  order of the pushes. A pop returns the id pushed first and leaves the later ones.
\<close>

theorem fifo_order:
  "pop_n 3 (push_all [1, 2, 3] empty_queue) = Some ([1, 2, 3], empty_queue)
   \<and> pop_n (length (tasks q) + length ts) (push_all ts q) = Some (tasks q @ ts, q\<lparr>tasks := []\<rparr>)
   \<and> pop (push_all (t # ts) empty_queue) = Some (t, push_all ts empty_queue)"
proof -
  have a: "pop_n 3 (push_all [1, 2, 3] empty_queue) = Some ([1, 2, 3], empty_queue)"
    by (simp add: push_def pop_def numeral_3_eq_3 empty_queue_def)
  have "pop_n (length (tasks q @ ts)) (push_all ts q) = Some (tasks q @ ts, (push_all ts q)\<lparr>tasks := []\<rparr>)"
    by (rule pop_n_all) (simp add: tasks_push_all)
  moreover have "(push_all ts q)\<lparr>tasks := []\<rparr> = q\<lparr>tasks := []\<rparr>"
    by (rule MessageQueue.equality) (simp_all add: push_all_more)
  ultimately have b: "pop_n (length (tasks q) + length ts) (push_all ts q) = Some (tasks q @ ts, q\<lparr>tasks := []\<rparr>)"
    by simp
  have c: "pop (push_all (t # ts) empty_queue) = Some (t, push_all ts empty_queue)"
    by (simp only: push_all_empty) (simp add: pop_def)
  from a b c show ?thesis by blast
qed

lemma history_count:
  "history cs q0 = Some q \<Longrightarrow> length (tasks q0) + pushes cs = pops cs + length (tasks q)"
proof (induction cs arbitrary: q0)
  case Nil
  then show ?case by simp
next
  case (Cons c cs)
  show ?case
  proof (cases c)
    case (Push t)
    with Cons.prems have "history cs (push t q0) = Some q" by simp
    from Cons.IH [OF this] Push show ?thesis by (simp add: push_def)
  next
    case Pop
    with Cons.prems obtain t q' where p: "pop q0 = Some (t, q')" and h: "history cs q' = Some q"
      by (auto split: option.splits)
    from p have "length (tasks q0) = Suc (length (tasks q'))"
      by (auto simp: pop_def split: if_splits)
    with Cons.IH [OF h] Pop show ?thesis by simp
  qed
qed

text \<open>
  Claim C5. After any history of completed calls on a queue that started empty, the number
  of pushes minus the number of pops is the length of the queue, and there are never more
  pops than pushes. Every state the queue goes through is the end of such a history.
\<close>

theorem queue_counting:
  assumes "history cs empty_queue = Some q"
  shows "int (pushes cs) - int (pops cs) = int (length (tasks q)) \<and> pops cs \<le> pushes cs"
  using history_count [OF assms] by (simp add: empty_queue_def)

theorem queue_counting_witness:
  "history [Push 1, Push 2, Pop, Push 3] empty_queue = Some \<lparr>tasks = [2, 3]\<rparr>
   \<and> int (pushes [Push 1, Push 2, Pop, Push 3]) - int (pops [Push 1, Push 2, Pop, Push 3]) = 2
   \<and> pops [Push 1, Push 2, Pop, Push 3] \<le> pushes [Push 1, Push 2, Pop, Push 3]"
proof -
  have h: "history [Push 1, Push 2, Pop, Push 3] empty_queue = Some \<lparr>tasks = [2, 3]\<rparr>"
    by (simp add: push_def pop_def empty_queue_def)
  show ?thesis
    using h queue_counting [OF h] by simp
qed

section \<open>The driver\<close>

lemma main_body_Inr: "main_body seeds s = Inr (main_step seeds s)"
  by (simp add: main_step_def main_body_def split: main_pc.splits)

lemma main_step_plain:
  "main_step seeds s =
     (case main_at s of
        Seeding i \<Rightarrow>
          (if i < length seeds
           then s\<lparr>taskQueue := push (seeds ! i) (taskQueue s), main_at := Seeding (Suc i)\<rparr>
           else s\<lparr>main_at := Joining 0\<rparr>)
      | Joining k \<Rightarrow>
          (if k < length (workers s)
           then (if workers s ! k = Finished then s\<lparr>main_at := Joining (Suc k)\<rparr> else s)
           else s\<lparr>main_at := Returned, halted := True\<rparr>)
      | Returned \<Rightarrow> s)"
  by (simp add: main_step_def main_body_def split: main_pc.splits)

lemma mset_take_sub: "mset (take i xs) \<subseteq># mset xs"
  by (metis append_take_drop_id mset_append mset_subset_eq_add_left)

lemma in_flight_update:
  "w < length ws \<Longrightarrow> in_flight (ws[w := x]) + held (ws ! w) = in_flight ws + held x"
proof (induction ws arbitrary: w)
  case Nil
  then show ?case by simp
next
  case (Cons a ws)
  show ?case
  proof (cases w)
    case 0
    then show ?thesis by simp
  next
    case (Suc k)
    with Cons.prems have "k < length ws" by simp
    from Cons.IH [OF this] Suc show ?thesis by (simp add: ac_simps)
  qed
qed

lemma in_flight_idle: "list_all (\<lambda>w. w = AtPop) ws \<Longrightarrow> in_flight ws = {#}"
  by (induction ws) simp_all

lemma in_flight_replicate: "in_flight (replicate n AtPop) = {#}"
  by (induction n) simp_all

lemma conserved_init: "conserved seeds (init n)"
  by (simp add: conserved_def init_def empty_queue_def loop_head_def in_flight_replicate)

lemma conserved_main_step:
  assumes "conserved seeds s"
  shows "conserved seeds (main_step seeds s)"
proof (cases "main_at s")
  case (Seeding i)
  with assms have le: "i \<le> length seeds"
    and eq: "mset (tasks (taskQueue s)) + in_flight (workers s) + mset (processed s) = mset (take i seeds)"
    by (simp_all add: conserved_def)
  show ?thesis
  proof (cases "i < length seeds")
    case True
    then have "take (Suc i) seeds = take i seeds @ [seeds ! i]"
      by (simp add: take_Suc_conv_app_nth)
    with True Seeding eq show ?thesis
      by (simp add: conserved_def main_step_plain push_def)
  next
    case False
    with le have "take i seeds = seeds" by simp
    with False Seeding eq show ?thesis
      by (simp add: conserved_def main_step_plain)
  qed
next
  case (Joining k)
  with assms show ?thesis
    by (simp add: conserved_def main_step_plain)
next
  case Returned
  with assms show ?thesis
    by (simp add: conserved_def main_step_plain)
qed

lemma conserved_worker_step:
  assumes "conserved seeds s"
  shows "conserved seeds (worker_step proc w s)"
proof (cases "w < length (workers s)")
  case False
  with assms show ?thesis by (simp add: worker_step_def)
next
  case True
  note w = this
  show ?thesis
  proof (cases "workers s ! w")
    case AtPop
    show ?thesis
    proof (cases "tasks (taskQueue s)")
      case Nil
      with AtPop w assms show ?thesis by (simp add: worker_step_def pop_def)
    next
      case (Cons t ts)
      from in_flight_update [OF w, of "AtProcess t"] AtPop
      have "in_flight ((workers s)[w := AtProcess t]) = in_flight (workers s) + {#t#}" by simp
      with Cons AtPop w assms show ?thesis
        by (simp add: worker_step_def pop_def conserved_def)
    qed
  next
    case (AtProcess t)
    from in_flight_update [OF w, of AtPop] AtProcess
    have "in_flight ((workers s)[w := AtPop]) + {#t#} = in_flight (workers s)" by simp
    then have "in_flight (workers s) = in_flight ((workers s)[w := AtPop]) + {#t#}" by simp
    with AtProcess w assms show ?thesis
      by (cases "outcome (proc t)") (simp_all add: worker_step_def conserved_def loop_head_def)
  next
    case Finished
    with w assms show ?thesis by (simp add: worker_step_def)
  qed
qed

lemma conserved_step: "conserved seeds s \<Longrightarrow> conserved seeds (step seeds t s)"
  by (cases t) (simp_all add: step_def conserved_main_step conserved_worker_step)

lemma conserved_run: "conserved seeds s \<Longrightarrow> conserved seeds (run seeds sched s)"
  by (induction sched arbitrary: s) (simp_all add: conserved_step)

lemma conserved_drained:
  assumes "conserved seeds s" and "drained s"
  shows "mset (processed s) = mset seeds"
proof -
  from assms(2) have "in_flight (workers s) = {#}" and "tasks (taskQueue s) = []"
    and "pushed (main_at s) seeds = seeds"
    by (auto simp: drained_def in_flight_idle split: main_pc.splits)
  with assms(1) show ?thesis by (simp add: conserved_def)
qed

lemma conserved_subset:
  assumes "conserved seeds s"
  shows "mset (processed s) \<subseteq># mset seeds"
proof -
  have "mset (pushed (main_at s) seeds) \<subseteq># mset seeds"
    by (cases "main_at s") (simp_all add: mset_take_sub)
  moreover from assms have "mset (processed s) \<subseteq># mset (pushed (main_at s) seeds)"
    by (metis conserved_def mset_subset_eq_add_right)
  ultimately show ?thesis by (rule subset_mset.order_trans[rotated])
qed

lemma drain_run:
  "run main_seeds drain_schedule (init main_workers) =
     \<lparr>taskQueue = empty_queue, workers = [AtPop, AtPop, AtPop], main_at = Joining 0,
      processed = [2, 1, 3, 4, 5], halted = False\<rparr>"
  by (simp add: drain_schedule_def main_seeds_def main_workers_def init_def step_def
      main_step_plain worker_step_def push_def pop_def empty_queue_def loop_head_def
      outcome_def processTask_returns numeral_3_eq_3)

text \<open>
  Claim C6. For any number of workers, any ids pushed and any schedule, the ids processed
  so far are among the ids pushed, each at most as often as it was pushed; and once the
  ids are drained, the processed ids are exactly the pushed ids: as many handler calls as
  pushes, and for distinct ids each one processed once, none twice and none lost.
\<close>

theorem task_conservation:
  "mset (processed (run seeds sched (init n))) \<subseteq># mset seeds
   \<and> (drained (run seeds sched (init n)) \<longrightarrow>
        mset (processed (run seeds sched (init n))) = mset seeds
        \<and> length (processed (run seeds sched (init n))) = length seeds
        \<and> (distinct seeds \<longrightarrow>
             distinct (processed (run seeds sched (init n)))
             \<and> set (processed (run seeds sched (init n))) = set seeds))"
proof -
  define s where "s = run seeds sched (init n)"
  have c: "conserved seeds s"
    unfolding s_def by (rule conserved_run) (rule conserved_init)
  have a: "mset (processed s) \<subseteq># mset seeds"
    by (rule conserved_subset [OF c])
  have b: "mset (processed s) = mset seeds" if "drained s"
    by (rule conserved_drained [OF c that])
  have l: "length (processed s) = length seeds" if "drained s"
    using b [OF that] by (rule mset_eq_length)
  have d: "distinct (processed s) \<and> set (processed s) = set seeds" if "drained s" "distinct seeds"
    using b [OF that(1)] that(2) by (metis mset_eq_imp_distinct_iff mset_eq_setD)
  from a b l d show ?thesis unfolding s_def by blast
qed

theorem task_conservation_witness:
  "drained (run main_seeds drain_schedule (init main_workers))
   \<and> distinct main_seeds
   \<and> processed (run main_seeds drain_schedule (init main_workers)) = [2, 1, 3, 4, 5]
   \<and> mset (processed (run main_seeds drain_schedule (init main_workers))) = mset main_seeds
   \<and> length (processed (run main_seeds drain_schedule (init main_workers))) = 5
   \<and> distinct (processed (run main_seeds drain_schedule (init main_workers)))"
proof -
  have d: "drained (run main_seeds drain_schedule (init main_workers))"
    by (simp add: drain_run drained_def empty_queue_def)
  have e: "distinct main_seeds" by (simp add: main_seeds_def)
  from task_conservation [of main_seeds drain_schedule main_workers] d e
  show ?thesis unfolding drain_run by (simp add: main_seeds_def)
qed

lemma running_init: "running n (init n)"
  by (simp add: running_def init_def loop_head_def)

lemma running_main_step:
  assumes "running n s" and "0 < n"
  shows "running n (main_step seeds s)"
proof (cases "main_at s")
  case (Seeding i)
  with assms show ?thesis by (simp add: running_def main_step_plain)
next
  case (Joining k)
  with assms have k: "k = 0" and len: "0 < length (workers s)"
    and nf: "Finished \<notin> set (workers s)"
    by (simp_all add: running_def)
  from len nf have "workers s ! 0 \<noteq> Finished" by (metis nth_mem)
  with Joining k len assms(1) show ?thesis by (simp add: main_step_plain)
next
  case Returned
  with assms show ?thesis by (simp add: running_def)
qed

lemma not_Finished_update:
  "Finished \<notin> set ws \<Longrightarrow> x \<noteq> Finished \<Longrightarrow> Finished \<notin> set (ws[w := x])"
  by (metis insert_iff set_update_subset_insert subsetD)

lemma running_worker_step:
  assumes "running n s"
  shows "running n (worker_step processTask w s)"
proof (cases "w < length (workers s)")
  case False
  with assms show ?thesis by (simp add: worker_step_def)
next
  case True
  from assms have nf: "Finished \<notin> set (workers s)" by (simp add: running_def)
  show ?thesis
  proof (cases "workers s ! w")
    case AtPop
    with True assms nf show ?thesis
      by (cases "tasks (taskQueue s)")
        (simp_all add: worker_step_def pop_def running_def not_Finished_update)
  next
    case (AtProcess t)
    have "outcome (processTask t) = Inr ()"
      by (simp add: outcome_def processTask_returns)
    with AtProcess True assms nf show ?thesis
      by (simp add: worker_step_def running_def loop_head_def not_Finished_update)
  next
    case Finished
    with True assms show ?thesis by (simp add: worker_step_def)
  qed
qed

lemma running_step: "running n s \<Longrightarrow> 0 < n \<Longrightarrow> running n (step seeds t s)"
  by (cases t) (simp_all add: step_def running_main_step running_worker_step)

lemma running_run: "running n s \<Longrightarrow> 0 < n \<Longrightarrow> running n (run seeds sched s)"
  by (induction sched arbitrary: s) (simp_all add: running_step)

lemma drained_step:
  assumes "running n s" and "0 < n" and "drained s"
  shows "step seeds t s = s"
proof (cases t)
  case Main
  from assms(1,3) have "main_at s = Joining 0"
    by (cases "main_at s") (simp_all add: running_def drained_def)
  moreover from assms(1,2) have len: "0 < length (workers s)"
    and nf: "Finished \<notin> set (workers s)"
    by (simp_all add: running_def)
  moreover from len nf have "workers s ! 0 \<noteq> Finished" by (metis nth_mem)
  ultimately show ?thesis using Main by (simp add: step_def main_step_plain)
next
  case (Worker w)
  show ?thesis
  proof (cases "w < length (workers s)")
    case False
    with Worker show ?thesis by (simp add: step_def worker_step_def)
  next
    case True
    with assms(3) have "workers s ! w = AtPop" and "tasks (taskQueue s) = []"
      by (simp_all add: drained_def list_all_length)
    with True Worker show ?thesis by (simp add: step_def worker_step_def pop_def)
  qed
qed

lemma drained_run:
  assumes "running n s" and "0 < n" and "drained s"
  shows "run seeds later s = s"
  by (induction later) (simp_all add: drained_step [OF assms])

text \<open>
  Claim C9. With at least one worker, under every schedule: \<^verbatim>\<open>main\<close> never gets
  past its joins, the process never ends, and no worker ever leaves its loop. Once the
  seeded ids are drained, no thread can act any more: the state stays as it is under every
  further schedule.
\<close>

theorem join_never_completes:
  assumes "0 < n"
  shows "main_at (run seeds sched (init n)) \<noteq> Returned
       \<and> \<not> halted (run seeds sched (init n))
       \<and> Finished \<notin> set (workers (run seeds sched (init n)))
       \<and> (drained (run seeds sched (init n)) \<longrightarrow>
            run seeds later (run seeds sched (init n)) = run seeds sched (init n))"
proof -
  define s where "s = run seeds sched (init n)"
  have r: "running n s"
    unfolding s_def by (rule running_run [OF running_init assms])
  then have a: "main_at s \<noteq> Returned" and b: "\<not> halted s" and c: "Finished \<notin> set (workers s)"
    by (auto simp: running_def)
  have d: "run seeds later s = s" if "drained s"
    by (rule drained_run [OF r assms that])
  from a b c d show ?thesis unfolding s_def by blast
qed

theorem join_never_completes_witness:
  "0 < main_workers
   \<and> drained (run main_seeds drain_schedule (init main_workers))
   \<and> main_at (run main_seeds drain_schedule (init main_workers)) = Joining 0
   \<and> workers (run main_seeds drain_schedule (init main_workers)) = [AtPop, AtPop, AtPop]
   \<and> \<not> halted (run main_seeds drain_schedule (init main_workers))
   \<and> run main_seeds [Worker 0, Main, Worker 2, Main]
         (run main_seeds drain_schedule (init main_workers))
       = run main_seeds drain_schedule (init main_workers)"
proof -
  have n: "0 < main_workers" by (simp add: main_workers_def)
  have d: "drained (run main_seeds drain_schedule (init main_workers))"
    by (simp add: drain_run drained_def empty_queue_def)
  from join_never_completes [OF n, of main_seeds drain_schedule "[Worker 0, Main, Worker 2, Main]"] n d
  show ?thesis unfolding drain_run by simp
qed

section \<open>Blocking and waking\<close>

















section \<open>The two files\<close>

lemma outcome_SOLID_eq: "outcome (processTask_SOLID v) = outcome (processTask v)"
  by (simp add: outcome_def processTask_returns processTask_SOLID_returns)

lemma worker_step_SOLID_eq: "worker_step processTask_SOLID w s = worker_step processTask w s"
  unfolding worker_step_def outcome_SOLID_eq by (rule refl)

lemma main_step_SOLID_eq:
  "\<not> join_waits Main s \<Longrightarrow> \<not> halted s \<Longrightarrow> main_step_SOLID seeds s = main_step seeds s"
  by (cases "main_at s") (auto simp: main_step_SOLID_def main_step_plain join_waits_def)

lemma step_SOLID_eq: "join_waits t s \<or> step_SOLID seeds t s = step seeds t s"
proof (cases t)
  case Main
  show ?thesis
  proof (cases "halted s")
    case True
    then show ?thesis by (simp add: step_def step_SOLID_def)
  next
    case False
    show ?thesis
    proof (cases "join_waits Main s")
      case True
      with Main show ?thesis by simp
    next
      case nw: False
      from main_step_SOLID_eq [OF nw False] Main show ?thesis
        by (simp add: step_def step_SOLID_def)
    qed
  qed
next
  case (Worker w)
  then show ?thesis by (simp add: step_def step_SOLID_def worker_step_SOLID_eq)
qed

lemma main_only_join:
  "run main_seeds main_only (init main_workers) =
     \<lparr>taskQueue = \<lparr>tasks = [1, 2, 3, 4, 5]\<rparr>, workers = [AtPop, AtPop, AtPop],
      main_at = Joining 0, processed = [], halted = False\<rparr>"
  by (simp add: main_only_def main_seeds_def main_workers_def init_def step_def
      main_step_plain push_def empty_queue_def loop_head_def numeral_3_eq_3)

lemma main_only_detach:
  "run_SOLID main_seeds main_only (init main_workers) =
     \<lparr>taskQueue = \<lparr>tasks = [1, 2, 3, 4, 5]\<rparr>, workers = [AtPop, AtPop, AtPop],
      main_at = Returned, processed = [], halted = True\<rparr>"
  by (simp add: main_only_def main_seeds_def main_workers_def init_def step_SOLID_def
      main_step_SOLID_def push_def empty_queue_def loop_head_def numeral_3_eq_3)

lemma streams_differ: "written (events (processTask 3)) \<noteq> written (events (processTask_SOLID 3))"
proof -
  have f: "fetchMessageById 3 = Inr ''Message for ID 3''"
    by (simp add: fetchMessageById_def render_simps)
  show ?thesis
    by (simp add: events_def processTask_Inr [OF f]
        processTask_SOLID_Inr [OF f [folded fetch_SOLID_eq]] LOGGER_def)
qed

text \<open>
  Claim C10. The two files agree on the processing: for every id the lookups return the
  same text or fail with the same exception, and the two \<^verbatim>\<open>processTask\<close> have the
  same outcome, make the same calls of \<^verbatim>\<open>sendMessage\<close> and write the same lines; only
  the streams the lines go to differ, as they do for the id 3. The drivers agree as well:
  a worker's action is the same with either handler, the \<^verbatim>\<open>catch\<close> clause of the
  first file's \<^verbatim>\<open>main\<close> is never entered, and every action of every thread has the
  same effect in both files unless it is \<^verbatim>\<open>main\<close> at its last loop with a worker
  that has not finished. There the first file waits and never returns, while the second
  goes on: after ten actions of \<^verbatim>\<open>main\<close> alone, the first file's \<^verbatim>\<open>main\<close> stands
  at its first join and the second file's process has ended with nothing processed.
\<close>

theorem variants_agree:
  "fetchMessageById_SOLID v = fetchMessageById v
   \<and> outcome (processTask_SOLID v) = outcome (processTask v)
   \<and> notify_calls (events (processTask_SOLID v)) = notify_calls (events (processTask v))
   \<and> map snd (written (events (processTask_SOLID v))) = map snd (written (events (processTask v)))
   \<and> written (events (processTask_SOLID 3)) \<noteq> written (events (processTask 3))
   \<and> worker_step processTask_SOLID w s = worker_step processTask w s
   \<and> main_body seeds s = Inr (main_step seeds s)
   \<and> (join_waits t s \<or> step_SOLID seeds t s = step seeds t s)
   \<and> main_at (run seeds sched (init (Suc n))) \<noteq> Returned
   \<and> run main_seeds main_only (init main_workers) =
       \<lparr>taskQueue = \<lparr>tasks = [1, 2, 3, 4, 5]\<rparr>, workers = [AtPop, AtPop, AtPop],
        main_at = Joining 0, processed = [], halted = False\<rparr>
   \<and> run_SOLID main_seeds main_only (init main_workers) =
       \<lparr>taskQueue = \<lparr>tasks = [1, 2, 3, 4, 5]\<rparr>, workers = [AtPop, AtPop, AtPop],
        main_at = Returned, processed = [], halted = True\<rparr>"
proof -
  have "running (Suc n) (run seeds sched (init (Suc n)))"
    by (rule running_run [OF running_init]) simp
  then have r: "main_at (run seeds sched (init (Suc n))) \<noteq> Returned"
    by (auto simp: running_def)
  have d: "written (events (processTask_SOLID 3)) \<noteq> written (events (processTask 3))"
    using streams_differ by simp
  show ?thesis
    using r d step_SOLID_eq [of t s seeds]
    by (simp add: fetch_SOLID_eq outcome_def processTask_returns processTask_SOLID_returns
        written_lines_eq notify_calls_eq worker_step_SOLID_eq main_body_Inr
        main_only_join main_only_detach)
qed

end
